theory Spec2Isabelle
  imports Main
begin

section \<open>Python values\<close>

text \<open>
  The program is a Python module. A \<open>str\<close> is a \<^typ>\<open>string\<close>, an \<open>int\<close> is an \<^typ>\<open>int\<close>,
  \<open>str | None\<close> is a \<^typ>\<open>string option\<close>, a list is a list, and a \<open>dict\<close> whose iteration
  order matters is an association list in insertion order. An exception that leaves a
  function is a value \<open>Inl e\<close> of the result type.
\<close>

datatype py_error = RecursionError | IndexError | KeyError | ValueError

text \<open>\<open>s.split(sep)\<close> for a one-character separator; the result is never empty.\<close>

fun str_split :: "char \<Rightarrow> string \<Rightarrow> string list" where
  "str_split sep [] = [[]]"
| "str_split sep (x # xs) =
     (if x = sep then [] # str_split sep xs
      else (case str_split sep xs of [] \<Rightarrow> [[x]] | p # ps \<Rightarrow> (x # p) # ps))"

text \<open>\<open>sep.join(parts)\<close>.\<close>

fun str_join :: "string \<Rightarrow> string list \<Rightarrow> string" where
  "str_join sep [] = []"
| "str_join sep [p] = p"
| "str_join sep (p # q # ps) = p @ sep @ str_join sep (q # ps)"

text \<open>\<open>s.endswith(suffix)\<close>.\<close>

definition endswith :: "string \<Rightarrow> string \<Rightarrow> bool" where
  "endswith s suffix \<longleftrightarrow>
     length suffix \<le> length s \<and> drop (length s - length suffix) s = suffix"

text \<open>The slice \<open>xs[:i]\<close>: a negative bound counts from the end, and the bound is clamped.\<close>

definition slice_to :: "'a list \<Rightarrow> int \<Rightarrow> 'a list" where
  "slice_to xs i = (if i < 0 then take (nat (int (length xs) + i)) xs else take (nat i) xs)"

section \<open>Resolver\<close>

text \<open>
  A \<open>pathlib.Path\<close> is the list of its parts. \<open>relative_to\<close> raises \<open>ValueError\<close> when the
  other path is not a prefix. \<open>stem\<close> is the final name without its suffix: the suffix starts
  at the last dot, unless that dot is the first or the last character of the name.
  \<open>with_suffix("")\<close> replaces the final name by its stem and raises \<open>ValueError\<close> on a path
  with no name.
\<close>

type_synonym path = "string list"

definition relative_to :: "path \<Rightarrow> path \<Rightarrow> py_error + path" where
  "relative_to p other =
     (if take (length other) p = other then Inr (drop (length other) p) else Inl ValueError)"

definition stem :: "string \<Rightarrow> string" where
  "stem name =
     (let ps = str_split (CHR ''.'') name; front = str_join ''.'' (butlast ps)
      in if 2 \<le> length ps \<and> front \<noteq> [] \<and> last ps \<noteq> [] then front else name)"

definition with_suffix_empty :: "path \<Rightarrow> py_error + path" where
  "with_suffix_empty p = (if p = [] then Inl ValueError else Inr (butlast p @ [stem (last p)]))"

definition to_fqn :: "path \<Rightarrow> path \<Rightarrow> py_error + string" where
  "to_fqn project_root file_path =
     (case relative_to file_path project_root of
        Inl e \<Rightarrow> Inl e
      | Inr rel \<Rightarrow>
         (case with_suffix_empty rel of
            Inl e \<Rightarrow> Inl e
          | Inr rel' \<Rightarrow> Inr (str_join ''.'' rel')))"

text \<open>
  \<open>resolve_from_import\<close>: \<open>pkg_parts\<close> is the value of the local variable of that name after
  the \<open>if level:\<close> statement; the \<open>return\<close>s follow.
\<close>

definition pkg_parts :: "string \<Rightarrow> int \<Rightarrow> string list" where
  "pkg_parts current_fqn level =
     (let parts = butlast (str_split (CHR ''.'') current_fqn)
      in if level \<noteq> 0
         then (if level > 1 then slice_to parts (- level + 1) else parts)
         else parts)"

definition resolve_from_import :: "string \<Rightarrow> int \<Rightarrow> string option \<Rightarrow> string" where
  "resolve_from_import current_fqn level module =
     (let parts = pkg_parts current_fqn level
      in case module of
           Some m \<Rightarrow> if m \<noteq> [] then str_join ''.'' (parts @ [m]) else str_join ''.'' parts
         | None \<Rightarrow> str_join ''.'' parts)"

section \<open>Extractor\<close>

text \<open>
  The syntax tree that \<open>ast.parse\<close> returns, as far as \<open>_scan_file\<close> looks at it: an
  \<open>ast.Import\<close> with the names of its aliases, an \<open>ast.ImportFrom\<close> with its \<open>module\<close>,
  the names of its aliases and its \<open>level\<close>, and any other node with its child nodes.
  The \<open>alias\<close> children of the two import nodes are leaves that the loop of \<open>_scan_file\<close>
  passes over; they are left out of the tree. \<open>ast.walk\<close> yields the nodes breadth first:
  it pops a node from the left of a queue and appends the node's children on the right.
\<close>

datatype node =
    Import "string list"
  | ImportFrom "string option" "string list" int
  | Other "node list"

fun iter_child_nodes :: "node \<Rightarrow> node list" where
  "iter_child_nodes (Other children) = children"
| "iter_child_nodes _ = []"

function walk_queue :: "node list \<Rightarrow> node list" where
  "walk_queue [] = []"
| "walk_queue (n # todo) = n # walk_queue (todo @ iter_child_nodes n)"
  by pat_completeness auto
termination
proof (relation "measure (size_list size)")
  show "wf (measure (size_list size))" by simp
next
  fix n :: node and todo :: "node list"
  show "(todo @ iter_child_nodes n, n # todo) \<in> measure (size_list size)"
    by (cases n) (simp_all add: size_list_append)
qed

definition ast_walk :: "node \<Rightarrow> node list" where
  "ast_walk tree = walk_queue [tree]"

section \<open>Scanner\<close>

text \<open>
  \<open>module_info\<close> maps a module name to \<open>{"path": ..., "imports": [...]}\<close>. \<open>dict_set\<close> is
  the assignment \<open>d[k] = v\<close>: an existing key keeps its position, a new key goes last.
  \<open>append_import\<close> is \<open>self.module_info[fqn]["imports"].append(name)\<close>, which raises
  \<open>KeyError\<close> when the key is missing. \<open>visit_nodes\<close> is the loop of \<open>_scan_file\<close> over
  the nodes that \<open>ast.walk\<close> yields, and \<open>append_names\<close> its inner loop over the aliases
  of an \<open>import\<close> statement.
\<close>

record module_record =
  path :: string
  "imports" :: "string list"

type_synonym module_map = "(string \<times> module_record) list"

fun dict_set :: "'k \<Rightarrow> 'v \<Rightarrow> ('k \<times> 'v) list \<Rightarrow> ('k \<times> 'v) list" where
  "dict_set k v [] = [(k, v)]"
| "dict_set k v ((k', v') # d) = (if k' = k then (k, v) # d else (k', v') # dict_set k v d)"

fun append_import :: "string \<Rightarrow> string \<Rightarrow> module_map \<Rightarrow> py_error + module_map" where
  "append_import fqn name [] = Inl KeyError"
| "append_import fqn name ((k, r) # d) =
     (if k = fqn then Inr ((k, r\<lparr>imports := imports r @ [name]\<rparr>) # d)
      else (case append_import fqn name d of Inl e \<Rightarrow> Inl e | Inr d' \<Rightarrow> Inr ((k, r) # d')))"

fun append_names :: "string \<Rightarrow> string list \<Rightarrow> module_map \<Rightarrow> py_error + module_map" where
  "append_names fqn [] d = Inr d"
| "append_names fqn (name # names) d =
     (case append_import fqn name d of Inl e \<Rightarrow> Inl e | Inr d' \<Rightarrow> append_names fqn names d')"

fun visit_nodes :: "string \<Rightarrow> node list \<Rightarrow> module_map \<Rightarrow> py_error + module_map" where
  "visit_nodes fqn [] d = Inr d"
| "visit_nodes fqn (Import names # nodes) d =
     (case append_names fqn names d of Inl e \<Rightarrow> Inl e | Inr d' \<Rightarrow> visit_nodes fqn nodes d')"
| "visit_nodes fqn (ImportFrom module names level # nodes) d =
     (case append_import fqn (resolve_from_import fqn level module) d of
        Inl e \<Rightarrow> Inl e
      | Inr d' \<Rightarrow> visit_nodes fqn nodes d')"
| "visit_nodes fqn (Other children # nodes) d = visit_nodes fqn nodes d"

text \<open>
  What \<open>open(path).read()\<close> followed by \<open>ast.parse\<close> gives for a file: an exception
  (the file cannot be read, decoded or parsed), or the tree. \<open>_scan_file\<close> catches the
  exception and returns.
\<close>

datatype source = Unparseable | Parsed node

definition scan_file :: "source \<Rightarrow> string \<Rightarrow> module_map \<Rightarrow> py_error + module_map" where
  "scan_file src fqn d =
     (case src of Unparseable \<Rightarrow> Inr d | Parsed tree \<Rightarrow> visit_nodes fqn (ast_walk tree) d)"

text \<open>
  The directory tree under the project root: a regular file, a directory with its entries
  in the order \<open>os.scandir\<close> lists them, or a directory that cannot be listed. \<open>os.walk\<close>
  is called with its defaults: top down, errors of \<open>scandir\<close> ignored, so that a path that
  is missing, is a regular file or cannot be listed yields nothing. Each file name is
  paired with what reading and parsing that file gives. \<open>scan_files\<close> is the inner loop
  of \<open>scan\<close> over the file names of one directory, \<open>scan_dirs\<close> the outer loop over the
  directories that \<open>os.walk\<close> yields.
\<close>

datatype fsnode = File source | Dir "(string \<times> fsnode) list" | Unlistable

fun listed_files :: "(string \<times> fsnode) list \<Rightarrow> (string \<times> source) list" where
  "listed_files [] = []"
| "listed_files ((name, File src) # es) = (name, src) # listed_files es"
| "listed_files (_ # es) = listed_files es"

fun walk :: "path \<Rightarrow> fsnode \<Rightarrow> (path \<times> (string \<times> source) list) list" where
  "walk dirpath (File src) = []"
| "walk dirpath Unlistable = []"
| "walk dirpath (Dir entries) =
     (dirpath, listed_files entries) #
     concat (map (\<lambda>(name, e). case e of File src \<Rightarrow> [] | _ \<Rightarrow> walk (dirpath @ [name]) e) entries)"

definition os_walk :: "path \<Rightarrow> fsnode option \<Rightarrow> (path \<times> (string \<times> source) list) list" where
  "os_walk dirpath fs = (case fs of None \<Rightarrow> [] | Some n \<Rightarrow> walk dirpath n)"

text \<open>\<open>str(path)\<close>, the parts joined by the separator.\<close>

definition path_str :: "path \<Rightarrow> string" where
  "path_str p = str_join ''/'' p"

record scanner =
  project_root :: path
  module_info :: module_map

fun scan_files :: "path \<Rightarrow> path \<Rightarrow> (string \<times> source) list \<Rightarrow> module_map \<Rightarrow> py_error + module_map" where
  "scan_files proot root [] d = Inr d"
| "scan_files proot root ((file, src) # files) d =
     (if endswith file ''.py'' then
        (case to_fqn proot (root @ [file]) of
           Inl e \<Rightarrow> Inl e
         | Inr fqn \<Rightarrow>
            (case scan_file src fqn
                    (dict_set fqn \<lparr>path = path_str (root @ [file]), imports = []\<rparr> d) of
               Inl e \<Rightarrow> Inl e
             | Inr d' \<Rightarrow> scan_files proot root files d'))
      else scan_files proot root files d)"

fun scan_dirs :: "path \<Rightarrow> (path \<times> (string \<times> source) list) list \<Rightarrow> module_map \<Rightarrow> py_error + module_map" where
  "scan_dirs proot [] d = Inr d"
| "scan_dirs proot ((root, files) # rest) d =
     (case scan_files proot root files d of Inl e \<Rightarrow> Inl e | Inr d' \<Rightarrow> scan_dirs proot rest d')"

definition scan :: "fsnode option \<Rightarrow> scanner \<Rightarrow> py_error + scanner" where
  "scan fs self =
     (case scan_dirs (project_root self) (os_walk (project_root self) fs) [] of
        Inl e \<Rightarrow> Inl e
      | Inr d \<Rightarrow> Inr (self\<lparr>module_info := d\<rparr>))"

text \<open>
  \<open>build_graph\<close>: \<open>set(data["imports"])\<close> is held as a list without duplicates; the
  order in which Python iterates over the set is not specified, and \<open>remdups\<close> fixes one.
\<close>

definition build_graph :: "scanner \<Rightarrow> (string \<times> string list) list" where
  "build_graph self = map (\<lambda>(m, data). (m, remdups (imports data))) (module_info self)"

section \<open>Cycle detection\<close>

text \<open>
  The graph is a \<open>dict\<close> from vertex to a set of vertices: an association list in key
  order, each edge set a list in iteration order. \<open>graph.get(v, ())\<close> is \<open>graph_get\<close>.

  The closure \<open>dfs\<close> mutates \<open>index\<close>, \<open>stack\<close>, \<open>onstack\<close>, \<open>indices\<close>, \<open>lowlink\<close> and
  \<open>sccs\<close>; they are the fields of the state that the model passes along. The Python list
  \<open>stack\<close> is held top first, so \<open>stack.append(v)\<close> is \<open>v # stack\<close> and \<open>stack.pop()\<close> takes
  the head. \<open>pop_comp\<close> is the \<open>while True\<close> loop, with \<open>IndexError\<close> for \<open>pop\<close> on an empty
  list and \<open>KeyError\<close> for \<open>remove\<close> of a missing element. \<open>lower\<close> is the assignment
  \<open>lowlink[v] = min(lowlink[v], ...)\<close>, with \<open>KeyError\<close> for a missing key.

  \<open>enter\<close> is the first four statements of \<open>dfs\<close>, \<open>dfs_edges\<close> its \<open>for\<close> loop over the
  edges that are left, \<open>finish\<close> its last \<open>if\<close> statement, and \<open>scc_loop\<close> the loop
  \<open>for v in graph\<close> of the enclosing function.

  Python bounds the depth of recursion and raises \<open>RecursionError\<close> beyond it. The first
  argument of \<open>dfs\<close> is the number of nested calls of \<open>dfs\<close> that are still allowed.
\<close>

type_synonym 'v graph = "('v \<times> 'v list) list"

definition graph_get :: "'v graph \<Rightarrow> 'v \<Rightarrow> 'v list" where
  "graph_get graph v = (case map_of graph v of None \<Rightarrow> [] | Some ws \<Rightarrow> ws)"

record 'v tarjan_state =
  index :: nat
  stack :: "'v list"
  onstack :: "'v set"
  indices :: "'v \<rightharpoonup> nat"
  lowlink :: "'v \<rightharpoonup> nat"
  sccs :: "'v list list"

definition init_state :: "'v tarjan_state" where
  "init_state = \<lparr>index = 0, stack = [], onstack = {}, indices = Map.empty,
     lowlink = Map.empty, sccs = []\<rparr>"

fun pop_comp :: "'v \<Rightarrow> 'v list \<Rightarrow> 'v set \<Rightarrow> 'v list \<Rightarrow> py_error + ('v list \<times> 'v set \<times> 'v list)" where
  "pop_comp v [] ons cmp = Inl IndexError"
| "pop_comp v (w # st) ons cmp =
     (if w \<notin> ons then Inl KeyError
      else if w = v then Inr (st, ons - {w}, cmp @ [w])
      else pop_comp v st (ons - {w}) (cmp @ [w]))"

definition enter :: "'v \<Rightarrow> 'v tarjan_state \<Rightarrow> 'v tarjan_state" where
  "enter v s = s\<lparr>indices := (indices s)(v \<mapsto> index s), lowlink := (lowlink s)(v \<mapsto> index s),
     index := index s + 1, stack := v # stack s, onstack := insert v (onstack s)\<rparr>"

definition finish :: "'v \<Rightarrow> 'v tarjan_state \<Rightarrow> py_error + 'v tarjan_state" where
  "finish v s =
     (case (lowlink s v, indices s v) of
        (Some lv, Some iv) \<Rightarrow>
          if lv = iv then
            (case pop_comp v (stack s) (onstack s) [] of
               Inl e \<Rightarrow> Inl e
             | Inr (st, ons, cmp) \<Rightarrow>
                 Inr (s\<lparr>stack := st, onstack := ons,
                        sccs := (if length cmp > 1 then sccs s @ [cmp] else sccs s)\<rparr>))
          else Inr s
      | _ \<Rightarrow> Inl KeyError)"

definition lower :: "'v \<Rightarrow> nat option \<Rightarrow> 'v tarjan_state \<Rightarrow> py_error + 'v tarjan_state" where
  "lower v other s =
     (case (lowlink s v, other) of
        (Some lv, Some k) \<Rightarrow> Inr (s\<lparr>lowlink := (lowlink s)(v \<mapsto> min lv k)\<rparr>)
      | _ \<Rightarrow> Inl KeyError)"

fun dfs :: "nat \<Rightarrow> 'v graph \<Rightarrow> 'v \<Rightarrow> 'v tarjan_state \<Rightarrow> py_error + 'v tarjan_state"
and dfs_edges :: "nat \<Rightarrow> 'v graph \<Rightarrow> 'v \<Rightarrow> 'v list \<Rightarrow> 'v tarjan_state \<Rightarrow> py_error + 'v tarjan_state" where
  "dfs 0 graph v s = Inl RecursionError"
| "dfs (Suc depth) graph v s =
     (case dfs_edges depth graph v (graph_get graph v) (enter v s) of
        Inl e \<Rightarrow> Inl e
      | Inr s' \<Rightarrow> finish v s')"
| "dfs_edges depth graph v [] s = Inr s"
| "dfs_edges depth graph v (w # ws) s =
     (if indices s w = None then
        (case dfs depth graph w s of
           Inl e \<Rightarrow> Inl e
         | Inr s' \<Rightarrow>
            (case lower v (lowlink s' w) s' of
               Inl e \<Rightarrow> Inl e
             | Inr s'' \<Rightarrow> dfs_edges depth graph v ws s''))
      else if w \<in> onstack s then
        (case lower v (indices s w) s of
           Inl e \<Rightarrow> Inl e
         | Inr s' \<Rightarrow> dfs_edges depth graph v ws s')
      else dfs_edges depth graph v ws s)"

fun scc_loop :: "nat \<Rightarrow> 'v graph \<Rightarrow> 'v list \<Rightarrow> 'v tarjan_state \<Rightarrow> py_error + 'v tarjan_state" where
  "scc_loop depth graph [] s = Inr s"
| "scc_loop depth graph (v # vs) s =
     (if indices s v = None then
        (case dfs depth graph v s of
           Inl e \<Rightarrow> Inl e
         | Inr s' \<Rightarrow> scc_loop depth graph vs s')
      else scc_loop depth graph vs s)"

definition strongly_connected_components :: "nat \<Rightarrow> 'v graph \<Rightarrow> py_error + 'v list list" where
  "strongly_connected_components depth graph =
     (case scc_loop depth graph (map fst graph) init_state of
        Inl e \<Rightarrow> Inl e
      | Inr s \<Rightarrow> Inr (sccs s))"


definition find_cycles :: "nat \<Rightarrow> scanner \<Rightarrow> py_error + string list list" where
  "find_cycles depth self = strongly_connected_components depth (build_graph self)"

text \<open>The vertices on which the loop \<open>for v in graph\<close> calls \<open>dfs\<close>, in order.\<close>

fun dfs_roots_from :: "nat \<Rightarrow> 'v graph \<Rightarrow> 'v list \<Rightarrow> 'v tarjan_state \<Rightarrow> 'v list" where
  "dfs_roots_from depth graph [] s = []"
| "dfs_roots_from depth graph (v # vs) s =
     (if indices s v = None then
        v # (case dfs depth graph v s of
               Inl e \<Rightarrow> []
             | Inr s' \<Rightarrow> dfs_roots_from depth graph vs s')
      else dfs_roots_from depth graph vs s)"

definition dfs_roots :: "nat \<Rightarrow> 'v graph \<Rightarrow> 'v list" where
  "dfs_roots depth graph = dfs_roots_from depth graph (map fst graph) init_state"

section \<open>Notions used in the statements\<close>

text \<open>The edge relation of a graph, and the vertices that occur in it.\<close>

definition edges :: "'v graph \<Rightarrow> ('v \<times> 'v) set" where
  "edges graph = {(v, w). w \<in> set (graph_get graph v)}"

definition verts :: "'v graph \<Rightarrow> 'v set" where
  "verts graph = fst ` set graph \<union> (\<Union>e \<in> set graph. set (snd e))"

text \<open>
  The module name of the file \<open>file\<close> in the directory \<open>root\<close> below the project root, the
  imports that \<open>_scan_file\<close> records for a tree, and the files that \<open>scan\<close> walks over.
\<close>

definition fqn_of :: "path \<Rightarrow> path \<Rightarrow> string \<Rightarrow> string" where
  "fqn_of proot root file = str_join ''.'' (drop (length proot) root @ [stem file])"

fun node_imports :: "string \<Rightarrow> node \<Rightarrow> string list" where
  "node_imports fqn (Import names) = names"
| "node_imports fqn (ImportFrom module names level) = [resolve_from_import fqn level module]"
| "node_imports fqn (Other children) = []"

definition source_imports :: "string \<Rightarrow> source \<Rightarrow> string list" where
  "source_imports fqn src =
     (case src of
        Unparseable \<Rightarrow> []
      | Parsed tree \<Rightarrow> concat (map (node_imports fqn) (ast_walk tree)))"

definition walked_files :: "path \<Rightarrow> fsnode option \<Rightarrow> (path \<times> string \<times> source) list" where
  "walked_files proot fs =
     concat (map (\<lambda>(root, files). map (\<lambda>(file, src). (root, file, src)) files) (os_walk proot fs))"

definition is_py :: "path \<times> string \<times> source \<Rightarrow> bool" where
  "is_py x = endswith (fst (snd x)) ''.py''"

definition file_key :: "path \<Rightarrow> path \<times> string \<times> source \<Rightarrow> string" where
  "file_key proot x = fqn_of proot (fst x) (fst (snd x))"

definition file_record :: "path \<Rightarrow> path \<times> string \<times> source \<Rightarrow> module_record" where
  "file_record proot x =
     \<lparr>path = path_str (fst x @ [fst (snd x)]),
      imports = source_imports (file_key proot x) (snd (snd x))\<rparr>"

section \<open>Example projects\<close>

text \<open>
  The project of four top-level modules, with the names that the from-import of \<open>c\<close>
  lists left open, the module map that its scan gives, and a project with a file that
  cannot be parsed beside a text file and a file that can.
\<close>

definition abc_project :: "string list \<Rightarrow> fsnode" where
  "abc_project names =
     Dir [(''a.py'', File (Parsed (Other [Import [''b'']]))),
          (''b.py'', File (Parsed (Other [Import [''c'']]))),
          (''c.py'', File (Parsed (Other [ImportFrom None names 1]))),
          (''d.py'', File (Parsed (Other [])))]"

definition abc_modules :: "path \<Rightarrow> module_map" where
  "abc_modules proot =
     [(''a'', \<lparr>path = path_str (proot @ [''a.py'']), imports = [''b'']\<rparr>),
      (''b'', \<lparr>path = path_str (proot @ [''b.py'']), imports = [''c'']\<rparr>),
      (''c'', \<lparr>path = path_str (proot @ [''c.py'']), imports = ['''']\<rparr>),
      (''d'', \<lparr>path = path_str (proot @ [''d.py'']), imports = []\<rparr>)]"

definition two_files :: fsnode where
  "two_files =
     Dir [(''bad.py'', File Unparseable),
          (''notes.txt'', File Unparseable),
          (''good.py'', File (Parsed (Other [Import [''os'']])))]"

section \<open>Invariants of the depth-first search\<close>

text \<open>
  \<open>stack_ok\<close>: the stack holds distinct indexed vertices, newest first, and agrees with
  \<open>onstack\<close>. \<open>low_ok\<close>: the lowlink of a vertex on the stack is the index of a vertex on
  the stack that it reaches, and is at most its own index. \<open>comps_ok\<close>: the components
  found so far are disjoint, off the stack, of length two or more, and their vertices
  reach each other. \<open>reach_inv\<close> holds while the edges of \<open>v\<close> are visited: \<open>v\<close> is on the
  stack above the part \<open>sb\<close> that was there before, reaches everything above it, and
  is reached from the whole stack.
\<close>

definition stack_ok :: "'v tarjan_state \<Rightarrow> bool" where
  "stack_ok s \<longleftrightarrow>
     distinct (stack s) \<and> set (stack s) = onstack s \<and>
     dom (lowlink s) = dom (indices s) \<and> set (stack s) \<subseteq> dom (indices s) \<and>
     (\<forall>x i. indices s x = Some i \<longrightarrow> i < index s) \<and>
     sorted_wrt (\<lambda>x y. the (indices s y) < the (indices s x)) (stack s)"

definition low_ok :: "'v graph \<Rightarrow> 'v tarjan_state \<Rightarrow> bool" where
  "low_ok graph s \<longleftrightarrow>
     (\<forall>x \<in> set (stack s). \<exists>u \<in> set (stack s).
        indices s u = lowlink s x \<and> the (lowlink s x) \<le> the (indices s x) \<and>
        (x, u) \<in> (edges graph)\<^sup>*)"

definition comps_ok :: "'v graph \<Rightarrow> 'v tarjan_state \<Rightarrow> bool" where
  "comps_ok graph s \<longleftrightarrow>
     distinct (concat (sccs s)) \<and>
     (\<forall>c \<in> set (sccs s).
        set c \<subseteq> dom (indices s) \<and> set c \<inter> set (stack s) = {} \<and> 2 \<le> length c \<and>
        (\<forall>x \<in> set c. \<forall>y \<in> set c. (x, y) \<in> (edges graph)\<^sup>*))"

definition inv :: "'v graph \<Rightarrow> 'v tarjan_state \<Rightarrow> bool" where
  "inv graph s \<longleftrightarrow> stack_ok s \<and> low_ok graph s \<and> comps_ok graph s"

definition ext :: "'v tarjan_state \<Rightarrow> 'v tarjan_state \<Rightarrow> bool" where
  "ext s s' \<longleftrightarrow> indices s \<subseteq>\<^sub>m indices s' \<and> index s \<le> index s'"

definition reach_inv :: "'v graph \<Rightarrow> 'v \<Rightarrow> 'v list \<Rightarrow> 'v tarjan_state \<Rightarrow> bool" where
  "reach_inv graph v sb s \<longleftrightarrow>
     (\<exists>ys. stack s = ys @ v # sb \<and> (\<forall>x \<in> set ys. (v, x) \<in> (edges graph)\<^sup>*)) \<and>
     (\<forall>y \<in> set (stack s). (y, v) \<in> (edges graph)\<^sup>*)"

definition dfs_post :: "'v graph \<Rightarrow> 'v \<Rightarrow> 'v tarjan_state \<Rightarrow> 'v tarjan_state \<Rightarrow> bool" where
  "dfs_post graph v s s' \<longleftrightarrow>
     inv graph s' \<and> ext s s' \<and> indices s' v = Some (index s) \<and> index s < index s' \<and>
     (\<exists>xs. stack s' = xs @ stack s \<and>
        (\<forall>x \<in> set xs. (v, x) \<in> (edges graph)\<^sup>* \<and> (\<exists>u \<in> set (stack s). (x, u) \<in> (edges graph)\<^sup>*))) \<and>
     (v \<notin> set (stack s') \<longrightarrow> lowlink s' v = indices s' v)"

section \<open>Properties of the depth-first search\<close>

lemma pop_comp_split:
  "distinct (ys @ [v]) \<Longrightarrow> set (ys @ [v]) \<subseteq> ons \<Longrightarrow>
   pop_comp v (ys @ v # sb) ons c = Inr (sb, ons - set (ys @ [v]), c @ ys @ [v])"
proof (induction ys arbitrary: ons c)
  case Nil
  then show ?case by simp
next
  case (Cons y ys)
  have "pop_comp v (ys @ v # sb) (ons - {y}) (c @ [y])
      = Inr (sb, (ons - {y}) - set (ys @ [v]), (c @ [y]) @ ys @ [v])"
    using Cons.prems by (intro Cons.IH) auto
  moreover have "ons - {y} - set (ys @ [v]) = ons - set ((y # ys) @ [v])" by auto
  ultimately show ?case using Cons.prems by auto
qed

lemma sorted_idx_cong:
  assumes "sorted_wrt (\<lambda>x y. the (f y) < the (f x)) xs" "\<forall>x \<in> set xs. g x = f x"
  shows "sorted_wrt (\<lambda>x y. the (g y) < the (g x)) xs"
  by (rule sorted_wrt_mono_rel[OF _ assms(1)]) (simp add: assms(2))

lemma enter_stack_ok:
  assumes "stack_ok s" "indices s v = None"
  shows "stack_ok (enter v s)"
proof -
  have vs: "v \<notin> set (stack s)" using assms by (auto simp: stack_ok_def)
  have "sorted_wrt (\<lambda>x y. the (indices s y) < the (indices s x)) (stack s)"
    using assms(1) by (simp add: stack_ok_def)
  then have "sorted_wrt (\<lambda>x y. the (((indices s)(v \<mapsto> index s)) y) < the (((indices s)(v \<mapsto> index s)) x)) (stack s)"
    using vs by (elim sorted_idx_cong) auto
  moreover have "\<forall>y \<in> set (stack s). the (indices s y) < index s"
    using assms(1) by (auto simp: stack_ok_def)
  ultimately show ?thesis
    using assms vs by (auto simp: stack_ok_def enter_def less_Suc_eq)
qed

lemma enter_low_ok:
  assumes "stack_ok s" "low_ok graph s" "indices s v = None"
  shows "low_ok graph (enter v s)"
proof -
  have vs: "v \<notin> set (stack s)" using assms by (auto simp: stack_ok_def)
  have vl: "lowlink s v = None" using assms by (auto simp: stack_ok_def)
  show ?thesis
    unfolding low_ok_def
  proof
    fix x assume "x \<in> set (stack (enter v s))"
    then consider "x = v" | "x \<in> set (stack s)" "x \<noteq> v" using vs by (auto simp: enter_def)
    then show "\<exists>u\<in>set (stack (enter v s)). indices (enter v s) u = lowlink (enter v s) x \<and>
        the (lowlink (enter v s) x) \<le> the (indices (enter v s) x) \<and> (x, u) \<in> (edges graph)\<^sup>*"
    proof cases
      case 1
      then show ?thesis by (auto simp: enter_def)
    next
      case 2
      then obtain u where "u \<in> set (stack s)" "indices s u = lowlink s x"
        "the (lowlink s x) \<le> the (indices s x)" "(x, u) \<in> (edges graph)\<^sup>*"
        using assms(2) by (auto simp: low_ok_def)
      then show ?thesis using 2 vs by (intro bexI[of _ u]) (auto simp: enter_def)
    qed
  qed
qed

lemma enter_comps_ok:
  assumes "comps_ok graph s" "indices s v = None"
  shows "comps_ok graph (enter v s)"
  using assms by (auto simp: comps_ok_def enter_def)

lemma enter_inv:
  assumes "inv graph s" "indices s v = None" "\<forall>y \<in> set (stack s). (y, v) \<in> (edges graph)\<^sup>*"
  shows "inv graph (enter v s)"
    and "reach_inv graph v (stack s) (enter v s)"
    and "ext s (enter v s)"
    and "indices (enter v s) v = Some (index s)"
    and "index (enter v s) = Suc (index s)"
proof -
  show "inv graph (enter v s)"
    using assms(1,2) by (simp add: inv_def enter_stack_ok enter_low_ok enter_comps_ok)
  show "reach_inv graph v (stack s) (enter v s)"
    using assms(3) by (auto simp: reach_inv_def enter_def)
  show "ext s (enter v s)" using assms(2) by (auto simp: ext_def enter_def map_le_def)
  show "indices (enter v s) v = Some (index s)" by (simp add: enter_def)
  show "index (enter v s) = Suc (index s)" by (simp add: enter_def)
qed


lemma reach_inv_on_stack: "reach_inv graph v sb s \<Longrightarrow> v \<in> set (stack s)"
  by (auto simp: reach_inv_def)

lemma inv_low_defined:
  assumes "inv graph s" "x \<in> set (stack s)"
  obtains lx ix where "lowlink s x = Some lx" "indices s x = Some ix" "lx \<le> ix" "ix < index s"
proof -
  from assms have "x \<in> dom (indices s)" "x \<in> dom (lowlink s)"
    by (auto simp: inv_def stack_ok_def)
  then obtain lx ix where 1: "lowlink s x = Some lx" "indices s x = Some ix" by auto
  moreover have "lx \<le> ix" using assms 1 by (fastforce simp: inv_def low_ok_def)
  moreover have "ix < index s" using assms 1 by (auto simp: inv_def stack_ok_def)
  ultimately show thesis using that by blast
qed

lemma lower_inv:
  assumes "inv graph s" "reach_inv graph v sb s" "lowlink s v = Some lv"
    and "lv \<le> k \<or> (\<exists>u \<in> set (stack s). indices s u = Some k \<and> (v, u) \<in> (edges graph)\<^sup>*)"
    and "s' = s\<lparr>lowlink := (lowlink s)(v \<mapsto> min lv k)\<rparr>"
  shows "inv graph s'" and "reach_inv graph v sb s'" and "ext s s'"
proof -
  have vs: "v \<in> set (stack s)" using assms(2) by (rule reach_inv_on_stack)
  have so: "stack_ok s" and lo: "low_ok graph s" and co: "comps_ok graph s"
    using assms(1) by (simp_all add: inv_def)
  have so': "stack_ok s'"
    using so vs assms(3) unfolding assms(5) stack_ok_def by auto
  have co': "comps_ok graph s'"
    using co unfolding assms(5) comps_ok_def by simp
  obtain u0 where u0: "u0 \<in> set (stack s)" "indices s u0 = Some lv"
     "lv \<le> the (indices s v)" "(v, u0) \<in> (edges graph)\<^sup>*"
    using lo vs assms(3) by (fastforce simp: low_ok_def)
  have "\<exists>u \<in> set (stack s). indices s u = Some (min lv k) \<and> (v, u) \<in> (edges graph)\<^sup>*"
  proof (cases "lv \<le> k")
    case True
    then show ?thesis using u0 by (auto simp: min_def)
  next
    case False
    then show ?thesis using assms(4) by (auto simp: min_def)
  qed
  then obtain u where u: "u \<in> set (stack s)" "indices s u = Some (min lv k)"
     "(v, u) \<in> (edges graph)\<^sup>*" by blast
  have lo': "low_ok graph s'"
    unfolding low_ok_def
  proof
    fix x assume "x \<in> set (stack s')"
    then have xs: "x \<in> set (stack s)" by (simp add: assms(5))
    show "\<exists>u\<in>set (stack s'). indices s' u = lowlink s' x \<and>
        the (lowlink s' x) \<le> the (indices s' x) \<and> (x, u) \<in> (edges graph)\<^sup>*"
    proof (cases "x = v")
      case True
      then show ?thesis using u u0(3) by (intro bexI[of _ u]) (auto simp: assms(5))
    next
      case False
      then show ?thesis using lo xs by (auto simp: low_ok_def assms(5))
    qed
  qed
  show "inv graph s'" using so' lo' co' by (simp add: inv_def)
  show "reach_inv graph v sb s'" using assms(2) by (simp add: reach_inv_def assms(5))
  show "ext s s'" by (simp add: ext_def assms(5))
qed

lemma onstack_edge:
  assumes "inv graph s" "reach_inv graph v sb s" "(v, w) \<in> edges graph" "w \<in> onstack s"
  shows "\<exists>s'. lower v (indices s w) s = Inr s' \<and> inv graph s' \<and> reach_inv graph v sb s' \<and> ext s s'"
proof -
  have ws: "w \<in> set (stack s)" using assms(1,4) by (simp add: inv_def stack_ok_def)
  obtain lv iv where v: "lowlink s v = Some lv" "indices s v = Some iv"
    using inv_low_defined[OF assms(1) reach_inv_on_stack[OF assms(2)]] by metis
  obtain lw iw where w: "indices s w = Some iw"
    using inv_low_defined[OF assms(1) ws] by metis
  define s' where "s' = s\<lparr>lowlink := (lowlink s)(v \<mapsto> min lv iw)\<rparr>"
  have 1: "lower v (indices s w) s = Inr s'" by (simp add: lower_def v w s'_def)
  have 2: "lv \<le> iw \<or> (\<exists>u \<in> set (stack s). indices s u = Some iw \<and> (v, u) \<in> (edges graph)\<^sup>*)"
    using ws w assms(3) by auto
  show ?thesis using 1 lower_inv[OF assms(1,2) v(1) 2 s'_def] by simp
qed

lemma called_edge:
  assumes "inv graph s" "reach_inv graph v sb s" "(v, w) \<in> edges graph"
    and "dfs_post graph w s s'"
  shows "\<exists>s''. lower v (lowlink s' w) s' = Inr s'' \<and> inv graph s'' \<and> reach_inv graph v sb s'' \<and> ext s s''"
proof -
  let ?E = "(edges graph)\<^sup>*"
  have i': "inv graph s'" and e: "ext s s'" and iw: "indices s' w = Some (index s)"
    using assms(4) by (simp_all add: dfs_post_def)
  obtain xs where xs: "stack s' = xs @ stack s"
    "\<forall>x \<in> set xs. (w, x) \<in> ?E \<and> (\<exists>u \<in> set (stack s). (x, u) \<in> ?E)"
    using assms(4) by (auto simp: dfs_post_def)
  obtain ys where ys: "stack s = ys @ v # sb" "\<forall>x \<in> set ys. (v, x) \<in> ?E"
    using assms(2) by (auto simp: reach_inv_def)
  have tov: "\<forall>y \<in> set (stack s). (y, v) \<in> ?E" using assms(2) by (auto simp: reach_inv_def)
  have r': "reach_inv graph v sb s'"
    unfolding reach_inv_def
  proof (intro conjI exI[of _ "xs @ ys"] ballI)
    show "stack s' = (xs @ ys) @ v # sb" using xs ys by simp
  next
    fix x assume "x \<in> set (xs @ ys)"
    then show "(v, x) \<in> ?E"
      using xs(2) ys(2) assms(3) by (auto intro: converse_rtrancl_into_rtrancl)
  next
    fix y assume "y \<in> set (stack s')"
    then consider "y \<in> set xs" | "y \<in> set (stack s)" using xs(1) by auto
    then show "(y, v) \<in> ?E"
    proof cases
      case 1
      then obtain u where "u \<in> set (stack s)" "(y, u) \<in> ?E" using xs(2) by blast
      then show ?thesis using tov by (meson rtrancl_trans)
    next
      case 2
      then show ?thesis using tov by blast
    qed
  qed
  have vs': "v \<in> set (stack s')" using r' by (rule reach_inv_on_stack)
  obtain lv iv where v: "lowlink s' v = Some lv" "indices s' v = Some iv" "lv \<le> iv"
    using inv_low_defined[OF i' vs'] by metis
  have "w \<in> dom (lowlink s')" using i' iw by (auto simp: inv_def stack_ok_def)
  then obtain lw where lw: "lowlink s' w = Some lw" by auto
  define s'' where "s'' = s'\<lparr>lowlink := (lowlink s')(v \<mapsto> min lv lw)\<rparr>"
  have 1: "lower v (lowlink s' w) s' = Inr s''" by (simp add: lower_def v lw s''_def)
  have 2: "lv \<le> lw \<or> (\<exists>u \<in> set (stack s'). indices s' u = Some lw \<and> (v, u) \<in> ?E)"
  proof (cases "w \<in> set (stack s')")
    case True
    then obtain u where "u \<in> set (stack s')" "indices s' u = lowlink s' w" "(w, u) \<in> ?E"
      using i' by (fastforce simp: inv_def low_ok_def)
    then show ?thesis using lw assms(3) by (auto intro: converse_rtrancl_into_rtrancl)
  next
    case False
    then have "lowlink s' w = indices s' w" using assms(4) by (simp add: dfs_post_def)
    then have "lw = index s" using lw iw by simp
    moreover obtain iv0 where "indices s v = Some iv0" "iv0 < index s"
      using inv_low_defined[OF assms(1) reach_inv_on_stack[OF assms(2)]] by metis
    moreover then have "indices s' v = Some iv0"
      using e by (auto simp: ext_def map_le_def dom_def)
    ultimately show ?thesis using v by simp
  qed
  have "ext s' s''" using lower_inv(3)[OF i' r' v(1) 2 s''_def] .
  then have "ext s s''" using e by (auto simp: ext_def intro: map_le_trans)
  then show ?thesis using 1 lower_inv(1,2)[OF i' r' v(1) 2 s''_def] by simp
qed


lemma finish_root:
  assumes "inv graph s" "reach_inv graph v sb s" "lowlink s v = indices s v"
  shows "\<exists>s'. finish v s = Inr s' \<and> inv graph s' \<and> indices s' = indices s \<and>
           index s' = index s \<and> stack s' = sb \<and> lowlink s' = lowlink s"
proof -
  let ?E = "(edges graph)\<^sup>*"
  have so: "stack_ok s" and lo: "low_ok graph s" and co: "comps_ok graph s"
    using assms(1) by (simp_all add: inv_def)
  obtain ys where ys: "stack s = ys @ v # sb" "\<forall>x \<in> set ys. (v, x) \<in> ?E"
    using assms(2) by (auto simp: reach_inv_def)
  have tov: "\<forall>y \<in> set (stack s). (y, v) \<in> ?E" using assms(2) by (auto simp: reach_inv_def)
  obtain lv iv where v: "lowlink s v = Some lv" "indices s v = Some iv"
    using inv_low_defined[OF assms(1) reach_inv_on_stack[OF assms(2)]] by metis
  have d: "distinct (ys @ [v])" "set (ys @ [v]) \<subseteq> onstack s" "set (ys @ [v]) \<inter> set sb = {}"
    "distinct sb"
    using so ys(1) by (auto simp: stack_ok_def)
  define c where "c = ys @ [v]"
  define s' where "s' = s\<lparr>stack := sb, onstack := onstack s - set c,
      sccs := (if length c > 1 then sccs s @ [c] else sccs s)\<rparr>"
  have pc: "pop_comp v (stack s) (onstack s) [] = Inr (sb, onstack s - set c, c)"
    unfolding ys(1) c_def using pop_comp_split[OF d(1,2), of sb "[]"] by simp
  have f: "finish v s = Inr s'"
    using assms(3) v by (simp add: finish_def pc s'_def)
  have srt: "sorted_wrt (\<lambda>x y. the (indices s y) < the (indices s x)) (c @ sb)"
    using so ys(1) by (simp add: stack_ok_def c_def)
  have so': "stack_ok s'"
    using so d srt unfolding stack_ok_def s'_def c_def ys(1)
    by (auto simp: sorted_wrt_append)
  have lo': "low_ok graph s'"
    unfolding low_ok_def
  proof
    fix x assume "x \<in> set (stack s')"
    then have x: "x \<in> set sb" by (simp add: s'_def)
    then have "x \<in> set (stack s)" by (simp add: ys(1))
    then obtain u where u: "u \<in> set (stack s)" "indices s u = lowlink s x"
      "the (lowlink s x) \<le> the (indices s x)" "(x, u) \<in> ?E"
      using lo by (auto simp: low_ok_def)
    have "u \<notin> set c"
    proof
      assume "u \<in> set c"
      then have "the (indices s x) < the (indices s u)"
        using srt x by (auto simp: sorted_wrt_append)
      then show False using u(2,3) by simp
    qed
    then have "u \<in> set sb" using u(1) by (auto simp: ys(1) c_def)
    then show "\<exists>u\<in>set (stack s'). indices s' u = lowlink s' x \<and>
        the (lowlink s' x) \<le> the (indices s' x) \<and> (x, u) \<in> ?E"
      using u by (auto simp: s'_def)
  qed
  have cdom: "set c \<subseteq> dom (indices s)" using so by (auto simp: stack_ok_def ys(1) c_def)
  have creach: "\<forall>x \<in> set c. \<forall>y \<in> set c. (x, y) \<in> ?E"
  proof (intro ballI)
    fix x y assume "x \<in> set c" "y \<in> set c"
    then have "(x, v) \<in> ?E" "(v, y) \<in> ?E"
      using tov ys by (auto simp: c_def)
    then show "(x, y) \<in> ?E" by (rule rtrancl_trans)
  qed
  have cold: "\<forall>c' \<in> set (sccs s). set c' \<inter> set c = {}"
    using co by (auto simp: comps_ok_def ys(1) c_def)
  have co': "comps_ok graph s'"
    using co cdom creach cold d
    unfolding comps_ok_def s'_def c_def[symmetric]
    by (auto simp: ys(1) c_def Suc_le_eq)
  show ?thesis
    using f so' lo' co' by (simp add: inv_def s'_def)
qed

lemma finish_inner:
  assumes "inv graph s" "reach_inv graph v sb s" "lowlink s v \<noteq> indices s v"
  shows "finish v s = Inr s"
    and "\<exists>xs. stack s = xs @ sb \<and>
           (\<forall>x \<in> set xs. (v, x) \<in> (edges graph)\<^sup>* \<and> (\<exists>u \<in> set sb. (x, u) \<in> (edges graph)\<^sup>*))"
proof -
  let ?E = "(edges graph)\<^sup>*"
  have so: "stack_ok s" and lo: "low_ok graph s"
    using assms(1) by (simp_all add: inv_def)
  obtain ys where ys: "stack s = ys @ v # sb" "\<forall>x \<in> set ys. (v, x) \<in> ?E"
    using assms(2) by (auto simp: reach_inv_def)
  have tov: "\<forall>y \<in> set (stack s). (y, v) \<in> ?E" using assms(2) by (auto simp: reach_inv_def)
  have vs: "v \<in> set (stack s)" using assms(2) by (rule reach_inv_on_stack)
  obtain lv iv where v: "lowlink s v = Some lv" "indices s v = Some iv"
    using inv_low_defined[OF assms(1) vs] by metis
  show "finish v s = Inr s" using assms(3) v by (simp add: finish_def)
  obtain u where u: "u \<in> set (stack s)" "indices s u = lowlink s v"
      "the (lowlink s v) \<le> the (indices s v)" "(v, u) \<in> ?E"
    using lo vs by (auto simp: low_ok_def)
  have lt: "the (indices s u) < the (indices s v)" using u(2,3) assms(3) v by auto
  have srt: "sorted_wrt (\<lambda>x y. the (indices s y) < the (indices s x)) (ys @ v # sb)"
    using so ys(1) by (simp add: stack_ok_def)
  have "u \<notin> set ys" using srt lt by (auto simp: sorted_wrt_append)
  moreover have "u \<noteq> v" using lt by auto
  ultimately have usb: "u \<in> set sb" using u(1) ys(1) by auto
  have "\<forall>x \<in> set (ys @ [v]). (v, x) \<in> ?E \<and> (\<exists>u \<in> set sb. (x, u) \<in> ?E)"
  proof
    fix x assume x: "x \<in> set (ys @ [v])"
    then have "(x, v) \<in> ?E" using tov ys(1) by auto
    then have "(x, u) \<in> ?E" using u(4) by (rule rtrancl_trans)
    moreover have "(v, x) \<in> ?E" using x ys(2) by auto
    ultimately show "(v, x) \<in> ?E \<and> (\<exists>u \<in> set sb. (x, u) \<in> ?E)" using usb by blast
  qed
  then show "\<exists>xs. stack s = xs @ sb \<and>
           (\<forall>x \<in> set xs. (v, x) \<in> ?E \<and> (\<exists>u \<in> set sb. (x, u) \<in> ?E))"
    using ys(1) by (intro exI[of _ "ys @ [v]"]) simp
qed

lemma finish_inv:
  assumes "inv graph s" "reach_inv graph v sb s"
  shows "\<exists>s'. finish v s = Inr s' \<and> inv graph s' \<and> indices s' = indices s \<and>
           index s' = index s \<and>
           (\<exists>xs. stack s' = xs @ sb \<and>
              (\<forall>x \<in> set xs. (v, x) \<in> (edges graph)\<^sup>* \<and> (\<exists>u \<in> set sb. (x, u) \<in> (edges graph)\<^sup>*))) \<and>
           (v \<notin> set (stack s') \<longrightarrow> lowlink s' v = indices s' v)"
proof (cases "lowlink s v = indices s v")
  case True
  from finish_root[OF assms True] True show ?thesis by auto
next
  case False
  from finish_inner[OF assms False] assms(1) reach_inv_on_stack[OF assms(2)]
  show ?thesis by auto
qed


lemma ext_refl: "ext s s"
  by (simp add: ext_def)

lemma ext_trans: "ext s s' \<Longrightarrow> ext s' s'' \<Longrightarrow> ext s s''"
  by (auto simp: ext_def intro: map_le_trans)

lemma ext_indices: "ext s s' \<Longrightarrow> indices s x = Some i \<Longrightarrow> indices s' x = Some i"
  by (auto simp: ext_def map_le_def dom_def)

lemma graph_get_edges: "w \<in> set (graph_get graph v) \<Longrightarrow> (v, w) \<in> edges graph"
  by (simp add: edges_def)

lemma dfs_correct:
  "inv graph s \<Longrightarrow> indices s v = None \<Longrightarrow> \<forall>y \<in> set (stack s). (y, v) \<in> (edges graph)\<^sup>* \<Longrightarrow>
     dfs depth graph v s = Inr s' \<Longrightarrow> dfs_post graph v s s'"
  and dfs_edges_correct: "inv graph s \<Longrightarrow> reach_inv graph v sb s \<Longrightarrow> set ws \<subseteq> set (graph_get graph v) \<Longrightarrow>
     dfs_edges depth graph v ws s = Inr s' \<Longrightarrow>
     inv graph s' \<and> reach_inv graph v sb s' \<and> ext s s'"
proof (induction depth graph v s and depth graph v ws s arbitrary: s' and sb s'
    rule: dfs_dfs_edges.induct)
  case (1 graph v s)
  then show ?case by simp
next
  case (2 depth graph v s)
  from "2.prems"(4) obtain s2 where
    s2: "dfs_edges depth graph v (graph_get graph v) (enter v s) = Inr s2"
    and fin: "finish v s2 = Inr s'"
    by (auto split: sum.splits)
  note en = enter_inv[OF "2.prems"(1,2,3)]
  from "2.IH"[OF en(1) en(2) subset_refl s2]
  have i2: "inv graph s2" and r2: "reach_inv graph v (stack s) s2" and e2: "ext (enter v s) s2"
    by simp_all
  from finish_inv[OF i2 r2] fin
  have f: "inv graph s'" "indices s' = indices s2" "index s' = index s2"
    "\<exists>xs. stack s' = xs @ stack s \<and>
       (\<forall>x \<in> set xs. (v, x) \<in> (edges graph)\<^sup>* \<and> (\<exists>u \<in> set (stack s). (x, u) \<in> (edges graph)\<^sup>*))"
    "v \<notin> set (stack s') \<longrightarrow> lowlink s' v = indices s' v"
    by auto
  have e: "ext s s2" using en(3) e2 by (rule ext_trans)
  then have "ext s s'" using f(2,3) by (simp add: ext_def)
  moreover have "indices s' v = Some (index s)"
    using ext_indices[OF e2 en(4)] f(2) by simp
  moreover have "index s < index s'" using e2 en(5) f(3) by (simp add: ext_def)
  ultimately show ?case using f unfolding dfs_post_def by blast
next
  case (3 depth graph v s)
  then show ?case by (simp add: ext_refl)
next
  case (4 depth graph v w ws s)
  have edge: "(v, w) \<in> edges graph" and sub: "set ws \<subseteq> set (graph_get graph v)"
    using "4.prems"(3) by (simp_all add: graph_get_edges)
  show ?case
  proof (cases "indices s w = None")
    case True
    from "4.prems"(4) True obtain s1 s2 where
      s1: "dfs depth graph w s = Inr s1" and s2: "lower v (lowlink s1 w) s1 = Inr s2"
      and rest: "dfs_edges depth graph v ws s2 = Inr s'"
      by (auto split: sum.splits)
    have "\<forall>y \<in> set (stack s). (y, w) \<in> (edges graph)\<^sup>*"
      using "4.prems"(2) edge by (auto simp: reach_inv_def intro: rtrancl_into_rtrancl)
    from "4.IH"(1)[OF True "4.prems"(1) True this s1]
    have post: "dfs_post graph w s s1" .
    from called_edge[OF "4.prems"(1,2) edge post] s2
    have i2: "inv graph s2" and r2: "reach_inv graph v sb s2" and e2: "ext s s2"
      by auto
    from "4.IH"(2)[OF True s1 s2 i2 r2 sub rest] e2
    show ?thesis by (auto intro: ext_trans)
  next
    case False
    show ?thesis
    proof (cases "w \<in> onstack s")
      case True
      from "4.prems"(4) False True obtain s1 where
        s1: "lower v (indices s w) s = Inr s1"
        and rest: "dfs_edges depth graph v ws s1 = Inr s'"
        by (auto split: sum.splits)
      from onstack_edge[OF "4.prems"(1,2) edge True] s1
      have i1: "inv graph s1" and r1: "reach_inv graph v sb s1" and e1: "ext s s1"
        by auto
      from "4.IH"(3)[OF False True s1 i1 r1 sub rest] e1
      show ?thesis by (auto intro: ext_trans)
    next
      case nos: False
      from "4.prems"(4) False nos have rest: "dfs_edges depth graph v ws s = Inr s'"
        by simp
      from "4.IH"(4)[OF False nos "4.prems"(1,2) sub rest]
      show ?thesis .
    qed
  qed
qed


lemma finite_verts: "finite (verts graph)"
  by (simp add: verts_def)

lemma graph_get_verts: "w \<in> set (graph_get graph v) \<Longrightarrow> w \<in> verts graph"
proof -
  assume w: "w \<in> set (graph_get graph v)"
  then obtain ws where ws: "map_of graph v = Some ws" "w \<in> set ws"
    by (cases "map_of graph v") (auto simp: graph_get_def)
  then have "(v, ws) \<in> set graph" by (simp add: map_of_SomeD)
  then show ?thesis using ws(2) by (force simp: verts_def)
qed

lemma ext_card:
  assumes "ext s s'" "card (verts graph - dom (indices s)) \<le> depth"
  shows "card (verts graph - dom (indices s')) \<le> depth"
proof -
  have "dom (indices s) \<subseteq> dom (indices s')"
    using assms(1) by (simp add: ext_def map_le_implies_dom_le)
  then have "card (verts graph - dom (indices s')) \<le> card (verts graph - dom (indices s))"
    by (intro card_mono) (auto simp: finite_verts)
  then show ?thesis using assms(2) by simp
qed

lemma enter_card:
  assumes "indices s v = None" "v \<in> verts graph" "card (verts graph - dom (indices s)) \<le> Suc depth"
  shows "card (verts graph - dom (indices (enter v s))) \<le> depth"
proof -
  have "v \<in> verts graph - dom (indices s)" using assms(1,2) by auto
  moreover have "verts graph - dom (indices (enter v s)) = (verts graph - dom (indices s)) - {v}"
    by (auto simp: enter_def)
  ultimately show ?thesis using assms(3) by (simp add: finite_verts)
qed

lemma dfs_total:
  "inv graph s \<Longrightarrow> indices s v = None \<Longrightarrow> \<forall>y \<in> set (stack s). (y, v) \<in> (edges graph)\<^sup>* \<Longrightarrow>
     v \<in> verts graph \<Longrightarrow> card (verts graph - dom (indices s)) \<le> depth \<Longrightarrow>
     \<exists>s'. dfs depth graph v s = Inr s'"
  and dfs_edges_total: "inv graph s \<Longrightarrow> reach_inv graph v sb s \<Longrightarrow> set ws \<subseteq> set (graph_get graph v) \<Longrightarrow>
     card (verts graph - dom (indices s)) \<le> depth \<Longrightarrow>
     \<exists>s'. dfs_edges depth graph v ws s = Inr s'"
proof (induction depth graph v s and depth graph v ws s arbitrary: and sb
    rule: dfs_dfs_edges.induct)
  case (1 graph v s)
  have "v \<in> verts graph - dom (indices s)" using "1.prems"(2,4) by auto
  then have "card (verts graph - dom (indices s)) \<noteq> 0"
    using finite_verts[of graph] by (metis card_0_eq empty_iff finite_Diff)
  then show ?case using "1.prems"(5) by simp
next
  case (2 depth graph v s)
  note en = enter_inv[OF "2.prems"(1,2,3)]
  from "2.IH"[OF en(1) en(2) subset_refl enter_card[OF "2.prems"(2,4,5)]]
  obtain s2 where s2: "dfs_edges depth graph v (graph_get graph v) (enter v s) = Inr s2"
    by blast
  from dfs_edges_correct[OF en(1) en(2) subset_refl s2]
  have "inv graph s2" "reach_inv graph v (stack s) s2" by simp_all
  from finish_inv[OF this] obtain s' where "finish v s2 = Inr s'" by blast
  then show ?case using s2 by simp
next
  case (3 depth graph v s)
  then show ?case by simp
next
  case (4 depth graph v w ws s)
  have edge: "(v, w) \<in> edges graph" and sub: "set ws \<subseteq> set (graph_get graph v)"
    and wv: "w \<in> verts graph"
    using "4.prems"(3) by (auto simp: graph_get_edges graph_get_verts)
  show ?case
  proof (cases "indices s w = None")
    case True
    have pre: "\<forall>y \<in> set (stack s). (y, w) \<in> (edges graph)\<^sup>*"
      using "4.prems"(2) edge by (auto simp: reach_inv_def intro: rtrancl_into_rtrancl)
    from "4.IH"(1)[OF True "4.prems"(1) True pre wv "4.prems"(4)]
    obtain s1 where s1: "dfs depth graph w s = Inr s1" by blast
    from dfs_correct[OF "4.prems"(1) True pre s1]
    have post: "dfs_post graph w s s1" .
    from called_edge[OF "4.prems"(1,2) edge post]
    obtain s2 where s2: "lower v (lowlink s1 w) s1 = Inr s2"
      and i2: "inv graph s2" and r2: "reach_inv graph v sb s2" and e2: "ext s s2"
      by blast
    from "4.IH"(2)[OF True s1 s2 i2 r2 sub ext_card[OF e2 "4.prems"(4)]]
    show ?thesis using True s1 s2 by simp
  next
    case False
    show ?thesis
    proof (cases "w \<in> onstack s")
      case True
      from onstack_edge[OF "4.prems"(1,2) edge True]
      obtain s1 where s1: "lower v (indices s w) s = Inr s1"
        and i1: "inv graph s1" and r1: "reach_inv graph v sb s1" and e1: "ext s s1"
        by blast
      from "4.IH"(3)[OF False True s1 i1 r1 sub ext_card[OF e1 "4.prems"(4)]]
      show ?thesis using False True s1 by auto
    next
      case nos: False
      from "4.IH"(4)[OF False nos "4.prems"(1,2) sub "4.prems"(4)]
      show ?thesis using False nos by auto
    qed
  qed
qed

lemma inv_init: "inv graph init_state"
  by (simp add: inv_def stack_ok_def low_ok_def comps_ok_def init_state_def)

lemma dfs_root:
  assumes "inv graph s" "stack s = []" "indices s v = None" "dfs depth graph v s = Inr s'"
  shows "inv graph s' \<and> stack s' = [] \<and> ext s s'"
proof -
  have "dfs_post graph v s s'"
    using dfs_correct[OF assms(1,3) _ assms(4)] assms(2) by simp
  then show ?thesis using assms(2) by (auto simp: dfs_post_def)
qed

lemma scc_loop_correct:
  "inv graph s \<Longrightarrow> stack s = [] \<Longrightarrow> scc_loop depth graph vs s = Inr s' \<Longrightarrow>
   inv graph s' \<and> stack s' = []"
proof (induction vs arbitrary: s)
  case Nil
  then show ?case by simp
next
  case (Cons v vs)
  show ?case
  proof (cases "indices s v = None")
    case True
    with Cons.prems(3) obtain s1 where s1: "dfs depth graph v s = Inr s1"
      and rest: "scc_loop depth graph vs s1 = Inr s'"
      by (auto split: sum.splits)
    from dfs_root[OF Cons.prems(1,2) True s1] Cons.IH[OF _ _ rest]
    show ?thesis by simp
  next
    case False
    with Cons.prems(3) have "scc_loop depth graph vs s = Inr s'" by simp
    from Cons.IH[OF Cons.prems(1,2) this] show ?thesis .
  qed
qed

lemma scc_loop_total:
  "inv graph s \<Longrightarrow> stack s = [] \<Longrightarrow> set vs \<subseteq> verts graph \<Longrightarrow>
   card (verts graph - dom (indices s)) \<le> depth \<Longrightarrow>
   \<exists>s'. scc_loop depth graph vs s = Inr s'"
proof (induction vs arbitrary: s)
  case Nil
  then show ?case by simp
next
  case (Cons v vs)
  show ?case
  proof (cases "indices s v = None")
    case True
    have "\<forall>y \<in> set (stack s). (y, v) \<in> (edges graph)\<^sup>*" using Cons.prems(2) by simp
    from dfs_total[OF Cons.prems(1) True this _ Cons.prems(4)] Cons.prems(3)
    obtain s1 where s1: "dfs depth graph v s = Inr s1" by auto
    from dfs_root[OF Cons.prems(1,2) True s1]
    have 1: "inv graph s1" "stack s1 = []" "ext s s1" by simp_all
    from Cons.IH[OF 1(1,2) _ ext_card[OF 1(3) Cons.prems(4)]] Cons.prems(3)
    show ?thesis using True s1 by simp
  next
    case False
    then have eq: "scc_loop depth graph (v # vs) s = scc_loop depth graph vs s" by auto
    from Cons.IH[OF Cons.prems(1,2) _ Cons.prems(4)] Cons.prems(3)
    show ?thesis unfolding eq by simp
  qed
qed

lemma scc_returns:
  assumes "card (verts graph) \<le> depth"
  shows "\<exists>cs. strongly_connected_components depth graph = Inr cs"
proof -
  have "card (verts graph - dom (indices (init_state :: 'a tarjan_state))) \<le> depth"
    using assms by (simp add: init_state_def)
  moreover have "set (map fst graph) \<subseteq> verts graph" by (auto simp: verts_def)
  ultimately obtain s' where "scc_loop depth graph (map fst graph) init_state = Inr s'"
    using scc_loop_total[OF inv_init, of "map fst graph" graph depth]
    by (auto simp: init_state_def)
  then show ?thesis by (simp add: strongly_connected_components_def)
qed

lemma scc_comps:
  assumes "strongly_connected_components depth graph = Inr cs"
  shows "distinct (concat cs)"
    and "\<forall>c \<in> set cs. 2 \<le> length c \<and> (\<forall>x \<in> set c. \<forall>y \<in> set c. (x, y) \<in> (edges graph)\<^sup>*)"
proof -
  from assms obtain s' where s': "scc_loop depth graph (map fst graph) init_state = Inr s'"
    and cs: "cs = sccs s'"
    by (auto simp: strongly_connected_components_def split: sum.splits)
  have "inv graph s'"
    using scc_loop_correct[OF inv_init _ s'] by (simp add: init_state_def)
  then have "comps_ok graph s'" by (simp add: inv_def)
  then show "distinct (concat cs)"
    and "\<forall>c \<in> set cs. 2 \<le> length c \<and> (\<forall>x \<in> set c. \<forall>y \<in> set c. (x, y) \<in> (edges graph)\<^sup>*)"
    by (simp_all add: comps_ok_def cs)
qed

lemma scc_member_cycle:
  assumes "strongly_connected_components depth graph = Inr cs" "c \<in> set cs" "x \<in> set c"
  shows "\<exists>y \<in> set c. y \<noteq> x \<and> (x, y) \<in> (edges graph)\<^sup>+ \<and> (y, x) \<in> (edges graph)\<^sup>+"
proof -
  have d: "distinct c" using scc_comps(1)[OF assms(1)] assms(2) by (auto simp: distinct_concat_iff)
  have l: "2 \<le> length c" and r: "\<forall>x \<in> set c. \<forall>y \<in> set c. (x, y) \<in> (edges graph)\<^sup>*"
    using scc_comps(2)[OF assms(1)] assms(2) by auto
  have "card (set c) \<ge> 2" using d l by (simp add: distinct_card)
  then have "set c \<noteq> {x}" by auto
  then obtain y where y: "y \<in> set c" "y \<noteq> x" using assms(3) by auto
  then have "(x, y) \<in> (edges graph)\<^sup>*" "(y, x) \<in> (edges graph)\<^sup>*" using r assms(3) by auto
  then have "(x, y) \<in> (edges graph)\<^sup>+" "(y, x) \<in> (edges graph)\<^sup>+"
    using y(2) by (auto simp: rtrancl_eq_or_trancl)
  then show ?thesis using y by blast
qed

lemma distinct_concat_nth:
  assumes "distinct (concat xs)" "i < j" "j < length xs"
  shows "set (xs ! i) \<inter> set (xs ! j) = {}"
proof -
  have xs: "xs = take j xs @ xs ! j # drop (Suc j) xs"
    using assms(3) by (rule id_take_nth_drop)
  have "xs ! i \<in> set (take j xs)"
    using assms(2,3) by (auto simp: in_set_conv_nth intro!: exI[of _ i])
  moreover have "distinct (concat (take j xs @ xs ! j # drop (Suc j) xs))"
    using assms(1) xs by simp
  ultimately show ?thesis by auto
qed

lemma dfs_roots_from_subset: "set (dfs_roots_from depth graph vs s) \<subseteq> set vs"
  by (induction vs arbitrary: s) (auto split: sum.splits)

lemma edges_trancl_key:
  assumes "(v, w) \<in> (edges graph)\<^sup>+"
  shows "v \<in> fst ` set graph"
proof -
  from assms obtain u where "(v, u) \<in> edges graph" by (meson tranclD)
  then have "u \<in> set (graph_get graph v)" by (simp add: edges_def)
  then obtain ws where "map_of graph v = Some ws"
    by (cases "map_of graph v") (auto simp: graph_get_def)
  then have "(v, ws) \<in> set graph" by (rule map_of_SomeD)
  then show ?thesis by force
qed

section \<open>Properties of the scanner\<close>

lemma append_import_dict_set:
  "append_import fqn x (dict_set fqn r d) = Inr (dict_set fqn (r\<lparr>imports := imports r @ [x]\<rparr>) d)"
  by (induction d) auto

lemma append_names_dict_set:
  "append_names fqn xs (dict_set fqn r d) = Inr (dict_set fqn (r\<lparr>imports := imports r @ xs\<rparr>) d)"
  by (induction xs arbitrary: r) (simp_all add: append_import_dict_set)

lemma visit_nodes_dict_set:
  "visit_nodes fqn nodes (dict_set fqn r d)
     = Inr (dict_set fqn (r\<lparr>imports := imports r @ concat (map (node_imports fqn) nodes)\<rparr>) d)"
proof (induction nodes arbitrary: r)
  case Nil
  then show ?case by simp
next
  case (Cons n nodes)
  then show ?case
    by (cases n) (simp_all add: append_import_dict_set append_names_dict_set)
qed

lemma scan_file_dict_set:
  "scan_file src fqn (dict_set fqn \<lparr>path = p, imports = []\<rparr> d)
     = Inr (dict_set fqn \<lparr>path = p, imports = source_imports fqn src\<rparr> d)"
  by (cases src) (simp_all add: scan_file_def source_imports_def visit_nodes_dict_set)

lemma to_fqn_under_root:
  assumes "take (length proot) root = proot"
  shows "to_fqn proot (root @ [file]) = Inr (fqn_of proot root file)"
proof -
  have "length (take (length proot) root) = length proot"
    using assms by simp
  then have "length proot \<le> length root" by simp
  then show ?thesis
    using assms by (simp add: to_fqn_def relative_to_def with_suffix_empty_def fqn_of_def butlast_append)
qed

lemma walk_roots:
  "(root, files) \<in> set (walk dirpath n) \<Longrightarrow> take (length dirpath) root = dirpath"
proof (induction dirpath n arbitrary: root files rule: walk.induct)
  case (1 dirpath src)
  then show ?case by simp
next
  case (2 dirpath)
  then show ?case by simp
next
  case (3 dirpath entries)
  have "(root, files) \<in> set ((dirpath, listed_files entries) #
     concat (map (\<lambda>(name, e). case e of File src \<Rightarrow> [] | _ \<Rightarrow> walk (dirpath @ [name]) e) entries))"
    using "3.prems" by (simp only: walk.simps)
  then consider "root = dirpath"
    | name e where "(name, e) \<in> set entries"
        "(root, files) \<in> set (case e of File src \<Rightarrow> [] | _ \<Rightarrow> walk (dirpath @ [name]) e)"
    by (auto simp del: walk.simps)
  then show ?case
  proof cases
    case 1
    then show ?thesis by simp
  next
    case 2
    have "take (length (dirpath @ [name])) root = dirpath @ [name]"
    proof (cases e)
      case (File src)
      then show ?thesis using 2(2) by simp
    next
      case (Dir x2)
      then show ?thesis using 2 "3.IH"(1)[of "(name, e)" name e x2 root files] by simp
    next
      case Unlistable
      then show ?thesis using 2(2) by simp
    qed
    then have "take (length dirpath) (take (length (dirpath @ [name])) root)
        = take (length dirpath) (dirpath @ [name])"
      by simp
    then show ?thesis by (simp add: min_def)
  qed
qed

lemma scan_files_fold:
  assumes "take (length proot) root = proot"
  shows "scan_files proot root files d
     = Inr (foldl (\<lambda>d x. dict_set (file_key proot x) (file_record proot x) d) d
          (filter is_py (map (\<lambda>(file, src). (root, file, src)) files)))"
proof (induction files arbitrary: d)
  case Nil
  then show ?case by simp
next
  case (Cons f files)
  obtain fname src where f: "f = (fname, src)" by (cases f)
  show ?case
    by (simp add: f Cons.IH to_fqn_under_root[OF assms] scan_file_dict_set is_py_def
        file_key_def file_record_def)
qed

lemma scan_dirs_fold:
  assumes "\<forall>w \<in> set ws. take (length proot) (fst w) = proot"
  shows "scan_dirs proot ws d
     = Inr (foldl (\<lambda>d x. dict_set (file_key proot x) (file_record proot x) d) d
          (filter is_py (concat (map (\<lambda>(root, files). map (\<lambda>(file, src). (root, file, src)) files) ws))))"
  using assms
proof (induction ws arbitrary: d)
  case Nil
  then show ?case by simp
next
  case (Cons w ws)
  obtain root files where w: "w = (root, files)" by (cases w)
  have "take (length proot) root = proot" using Cons.prems w by simp
  from scan_files_fold[OF this] Cons.IH Cons.prems
  show ?case by (simp add: w)
qed

lemma os_walk_roots: "w \<in> set (os_walk proot fs) \<Longrightarrow> take (length proot) (fst w) = proot"
  by (cases fs; cases w) (auto simp: os_walk_def dest: walk_roots)

lemma scan_fold:
  "scan fs self = Inr (self\<lparr>module_info :=
     foldl (\<lambda>d x. dict_set (file_key (project_root self) x) (file_record (project_root self) x) d) []
       (filter is_py (walked_files (project_root self) fs))\<rparr>)"
  using scan_dirs_fold[of "os_walk (project_root self) fs" "project_root self" "[]"]
  by (simp add: scan_def walked_files_def os_walk_roots)

lemma map_of_dict_set: "map_of (dict_set k v d) = (map_of d)(k \<mapsto> v)"
  by (induction d) auto

lemma keys_dict_set: "fst ` set (dict_set k v d) = insert k (fst ` set d)"
  by (simp add: dom_map_of_conv_image_fst[symmetric] map_of_dict_set)

lemma set_dict_set: "set (dict_set k v d) \<subseteq> insert (k, v) (set d)"
  by (induction d) (auto split: if_splits)

lemma keys_foldl_dict_set:
  "fst ` set (foldl (\<lambda>d x. dict_set (f x) (g x) d) d xs) = fst ` set d \<union> f ` set xs"
  by (induction xs arbitrary: d) (auto simp: keys_dict_set)

lemma set_foldl_dict_set:
  "set (foldl (\<lambda>d x. dict_set (f x) (g x) d) d xs) \<subseteq> set d \<union> (\<lambda>x. (f x, g x)) ` set xs"
proof (induction xs arbitrary: d)
  case Nil
  then show ?case by simp
next
  case (Cons x xs)
  have "set (foldl (\<lambda>d x. dict_set (f x) (g x) d) (dict_set (f x) (g x) d) xs)
      \<subseteq> set (dict_set (f x) (g x) d) \<union> (\<lambda>x. (f x, g x)) ` set xs"
    by (rule Cons.IH)
  then show ?case using set_dict_set[of "f x" "g x" d] by auto
qed

lemma map_of_foldl_other:
  "k \<notin> f ` set xs \<Longrightarrow> map_of (foldl (\<lambda>d x. dict_set (f x) (g x) d) d xs) k = map_of d k"
  by (induction xs arbitrary: d) (auto simp: map_of_dict_set)

lemma map_of_foldl_dict_set:
  "distinct (map f xs) \<Longrightarrow> x \<in> set xs \<Longrightarrow>
   map_of (foldl (\<lambda>d x. dict_set (f x) (g x) d) d xs) (f x) = Some (g x)"
proof (induction xs arbitrary: d)
  case Nil
  then show ?case by simp
next
  case (Cons a xs)
  show ?case
  proof (cases "x = a")
    case True
    then have "f x \<notin> f ` set xs" using Cons.prems(1) by auto
    then show ?thesis using True by (simp add: map_of_foldl_other map_of_dict_set)
  next
    case False
    then show ?thesis using Cons by simp
  qed
qed

lemma str_split_no_sep: "sep \<notin> set s \<Longrightarrow> str_split sep s = [s]"
  by (induction s) auto

lemma abc_scan:
  "scan (Some (abc_project names)) self = Inr (self\<lparr>module_info := abc_modules (project_root self)\<rparr>)"
  by (simp add: scan_fold walked_files_def os_walk_def abc_project_def is_py_def endswith_def
      file_key_def file_record_def fqn_of_def stem_def source_imports_def ast_walk_def
      resolve_from_import_def pkg_parts_def abc_modules_def)

lemma abc_graph:
  "build_graph (self\<lparr>module_info := abc_modules proot\<rparr>)
     = [(''a'', [''b'']), (''b'', [''c'']), (''c'', ['''']), (''d'', [])]"
  by (simp add: build_graph_def abc_modules_def)

lemma abc_cycles:
  "strongly_connected_components (Suc (Suc (Suc (Suc k))))
     [(''a'', [''b'']), (''b'', [''c'']), (''c'', ['''']), (''d'', [])] = Inr []"
  by (simp add: strongly_connected_components_def init_state_def enter_def graph_get_def
        lower_def finish_def)

lemma two_files_walked:
  "walked_files [''proj''] (Some two_files)
     = [([''proj''], ''bad.py'', Unparseable), ([''proj''], ''notes.txt'', Unparseable),
        ([''proj''], ''good.py'', Parsed (Other [Import [''os'']]))]"
  by (simp add: walked_files_def os_walk_def two_files_def)

lemma two_files_scan:
  "scan (Some two_files) \<lparr>project_root = [''proj''], module_info = []\<rparr>
     = Inr \<lparr>project_root = [''proj''],
            module_info = [(''bad'', \<lparr>path = ''proj/bad.py'', imports = []\<rparr>),
                           (''good'', \<lparr>path = ''proj/good.py'', imports = [''os'']\<rparr>)]\<rparr>"
  by (simp add: scan_fold two_files_walked is_py_def endswith_def
      file_key_def file_record_def fqn_of_def stem_def source_imports_def ast_walk_def path_str_def)

section \<open>The claims\<close>

subsection \<open>End-to-end scenario\<close>

text \<open>
  C1 (as amended). In a project of the four top-level files a.py, b.py, c.py and d.py,
  where a has \<open>import b\<close>, b has \<open>import c\<close>, c has a from-import of level 1 with no
  module name (\<open>from . import ...\<close>) and d imports nothing, the from-import of c resolves
  to the empty string and not to \<open>a\<close>: the scan records the imports b, c and the empty
  string, the graph is a to b, b to c, c to the empty string, d to nothing, and with a
  recursion depth of four or more \<open>find_cycles\<close> returns no cycle, so that d and every
  other module is in no cycle.
\<close>

theorem abc_project_no_cycle:
  "scan (Some (abc_project names)) self = Inr (self\<lparr>module_info := abc_modules (project_root self)\<rparr>) \<and>
   build_graph (self\<lparr>module_info := abc_modules (project_root self)\<rparr>)
     = [(''a'', [''b'']), (''b'', [''c'']), (''c'', ['''']), (''d'', [])] \<and>
   find_cycles (Suc (Suc (Suc (Suc k)))) (self\<lparr>module_info := abc_modules (project_root self)\<rparr>) = Inr []"
  by (simp add: abc_scan abc_graph abc_cycles find_cycles_def)

text \<open>
  The claim as first stated fails on the project rooted at \<open>proj\<close>: the edge set of c is
  not \<open>a\<close>, and no cycle is returned.
\<close>

theorem abc_project_counterexample:
  "scan (Some (abc_project [''a''])) \<lparr>project_root = [''proj''], module_info = []\<rparr>
     = Inr \<lparr>project_root = [''proj''], module_info = abc_modules [''proj'']\<rparr> \<and>
   graph_get (build_graph \<lparr>project_root = [''proj''], module_info = abc_modules [''proj'']\<rparr>) ''c''
     \<noteq> [''a''] \<and>
   find_cycles 4 \<lparr>project_root = [''proj''], module_info = abc_modules [''proj'']\<rparr> = Inr []"
proof -
  have "graph_get (build_graph \<lparr>project_root = [''proj''], module_info = abc_modules [''proj'']\<rparr>) ''c''
     = ['''']"
    by (simp add: build_graph_def abc_modules_def graph_get_def)
  moreover have "find_cycles 4 \<lparr>project_root = [''proj''], module_info = abc_modules [''proj'']\<rparr> = Inr []"
    using abc_cycles[of 0] abc_graph[where self = "\<lparr>project_root = [''proj''], module_info = []\<rparr>" and proot = "[''proj'']"]
    by (simp add: find_cycles_def numeral_eq_Suc)
  ultimately show ?thesis
    using abc_scan[of "[''a'']" "\<lparr>project_root = [''proj''], module_info = []\<rparr>"] by simp
qed

subsection \<open>Absolute from-imports\<close>

text \<open>
  C2. The claim says that a from-import of level 0 resolves to the module name as written.
  For an importing module inside a package the program prefixes the package parts of the
  importing module: the plain \<open>import\<close> branch of \<open>_scan_file\<close> records the name as
  written, this branch does not.
\<close>

theorem absolute_from_import_in_package:
  "resolve_from_import ''pkg.mod'' 0 (Some ''x.y'') = ''pkg.x.y'' \<and>
   resolve_from_import ''pkg.mod'' 0 (Some ''x.y'') \<noteq> ''x.y'' \<and>
   resolve_from_import ''mod'' 0 (Some ''x.y'') = ''x.y''"
  by (simp add: resolve_from_import_def pkg_parts_def)

subsection \<open>Parse failures\<close>

text \<open>
  C3 (as amended). Let the module names of the walked files ending in \<open>.py\<close> be distinct.
  Then the scan completes without an error, and every such file has its entry in the
  module map, with its path and the imports extracted from its source. A file whose
  source cannot be parsed is present too, with an empty list of imports.
\<close>

theorem scan_keeps_unparseable_file:
  assumes "x \<in> set (walked_files (project_root self) fs)" "is_py x"
    and "distinct (map (file_key (project_root self))
           (filter is_py (walked_files (project_root self) fs)))"
  shows "\<exists>self'. scan fs self = Inr self' \<and>
     map_of (module_info self') (file_key (project_root self) x)
       = Some (file_record (project_root self) x) \<and>
     (snd (snd x) = Unparseable \<longrightarrow> imports (file_record (project_root self) x) = [])"
proof -
  have "x \<in> set (filter is_py (walked_files (project_root self) fs))" using assms(1,2) by simp
  from map_of_foldl_dict_set[OF assms(3) this]
  show ?thesis by (simp add: scan_fold file_record_def source_imports_def)
qed

text \<open>
  The amended statement at the project with one unparseable and one parseable file.
\<close>

theorem scan_keeps_unparseable_file_witness:
  "([''proj''], ''bad.py'', Unparseable) \<in> set (walked_files [''proj''] (Some two_files)) \<and>
   is_py ([''proj''], ''bad.py'', Unparseable) \<and>
   distinct (map (file_key [''proj'']) (filter is_py (walked_files [''proj''] (Some two_files)))) \<and>
   (\<exists>self'. scan (Some two_files) \<lparr>project_root = [''proj''], module_info = []\<rparr> = Inr self' \<and>
      map_of (module_info self') ''bad'' = Some \<lparr>path = ''proj/bad.py'', imports = []\<rparr>)"
proof -
  have 1: "([''proj''], ''bad.py'', Unparseable)
      \<in> set (walked_files (project_root \<lparr>project_root = [''proj''], module_info = []\<rparr>) (Some two_files))"
    by (simp add: two_files_walked)
  have 2: "is_py ([''proj''], ''bad.py'', Unparseable)"
    by (simp add: is_py_def endswith_def)
  have 3: "distinct (map (file_key (project_root \<lparr>project_root = [''proj''], module_info = []\<rparr>))
      (filter is_py (walked_files (project_root \<lparr>project_root = [''proj''], module_info = []\<rparr>)
         (Some two_files))))"
    by (simp add: two_files_walked is_py_def endswith_def file_key_def fqn_of_def stem_def)
  have 4: "file_key [''proj''] ([''proj''], ''bad.py'', Unparseable) = ''bad''"
    by (simp add: file_key_def fqn_of_def stem_def)
  have 5: "file_record [''proj''] ([''proj''], ''bad.py'', Unparseable)
      = \<lparr>path = ''proj/bad.py'', imports = []\<rparr>"
    by (simp add: file_record_def source_imports_def path_str_def)
  from scan_keeps_unparseable_file[OF 1 2 3] 1 2 3 4 5
  show ?thesis by simp
qed

text \<open>
  The claim as first stated fails there: the unparseable file \<open>bad.py\<close> has an entry in the
  module map.
\<close>

theorem scan_keeps_unparseable_file_counterexample:
  "scan (Some two_files) \<lparr>project_root = [''proj''], module_info = []\<rparr>
     = Inr \<lparr>project_root = [''proj''],
            module_info = [(''bad'', \<lparr>path = ''proj/bad.py'', imports = []\<rparr>),
                           (''good'', \<lparr>path = ''proj/good.py'', imports = [''os'']\<rparr>)]\<rparr> \<and>
   map_of [(''bad'', \<lparr>path = ''proj/bad.py'', imports = []\<rparr>),
           (''good'', \<lparr>path = ''proj/good.py'', imports = [''os'']\<rparr>)] ''bad'' \<noteq> None"
  by (simp add: two_files_scan)

subsection \<open>Missing project root\<close>

text \<open>
  C4 (as amended). When the project root does not exist, is a regular file or cannot be
  listed, \<open>scan\<close> returns without an error and the module map is empty.
\<close>

theorem scan_missing_root:
  "scan None self = Inr (self\<lparr>module_info := []\<rparr>) \<and>
   scan (Some (File src)) self = Inr (self\<lparr>module_info := []\<rparr>) \<and>
   scan (Some Unlistable) self = Inr (self\<lparr>module_info := []\<rparr>)"
  by (simp add: scan_def os_walk_def)

text \<open>
  The claim as first stated fails on a missing root: \<open>scan\<close> returns and raises nothing.
\<close>

theorem scan_missing_root_counterexample:
  "scan None \<lparr>project_root = [''missing''], module_info = []\<rparr>
     = Inr \<lparr>project_root = [''missing''], module_info = []\<rparr> \<and>
   \<not> isl (scan None \<lparr>project_root = [''missing''], module_info = []\<rparr>)"
  by (simp add: scan_def os_walk_def)

subsection \<open>Components are disjoint and lie on cycles\<close>

text \<open>
  C5. With a recursion depth of at least the number of vertices,
  \<open>strongly_connected_components\<close> returns; and whenever it returns, the returned
  components are pairwise disjoint and every vertex of a returned component has a nonempty
  path of graph edges back to itself.
\<close>

theorem scc_partition:
  "(card (verts graph) \<le> depth \<longrightarrow> (\<exists>cs. strongly_connected_components depth graph = Inr cs)) \<and>
   (\<forall>cs. strongly_connected_components depth graph = Inr cs \<longrightarrow>
      (\<forall>i j. i < j \<and> j < length cs \<longrightarrow> set (cs ! i) \<inter> set (cs ! j) = {}) \<and>
      (\<forall>c \<in> set cs. \<forall>x \<in> set c. (x, x) \<in> (edges graph)\<^sup>+))"
proof (intro conjI impI allI ballI)
  assume "card (verts graph) \<le> depth"
  then show "\<exists>cs. strongly_connected_components depth graph = Inr cs" by (rule scc_returns)
next
  fix cs i j
  assume "strongly_connected_components depth graph = Inr cs" "i < j \<and> j < length cs"
  then show "set (cs ! i) \<inter> set (cs ! j) = {}"
    using distinct_concat_nth[OF scc_comps(1)] by blast
next
  fix cs c x
  assume "strongly_connected_components depth graph = Inr cs" "c \<in> set cs" "x \<in> set c"
  from scc_member_cycle[OF this] show "(x, x) \<in> (edges graph)\<^sup>+" by (meson trancl_trans)
qed

text \<open>
  The statement at a graph of two keys and one external target.
\<close>

theorem scc_partition_witness:
  "card (verts [(1::nat, [2]), (2, [1, 3])]) \<le> 3 \<and>
   strongly_connected_components 3 [(1::nat, [2]), (2, [1, 3])] = Inr [[2, 1]] \<and>
   (1, 1) \<in> (edges [(1::nat, [2]), (2, [1, 3])])\<^sup>+ \<and>
   (2, 2) \<in> (edges [(1::nat, [2]), (2, [1, 3])])\<^sup>+"
proof -
  have v: "verts [(1::nat, [2]), (2, [1, 3])] = {1, 2, 3}" by (auto simp: verts_def)
  have c: "card (verts [(1::nat, [2]), (2, [1, 3])]) \<le> 3" unfolding v by simp
  have r: "strongly_connected_components 3 [(1::nat, [2]), (2, [1, 3])] = Inr [[2, 1]]"
    by code_simp
  from scc_partition[of "[(1::nat, [2]), (2, [1, 3])]" 3] c r show ?thesis by simp
qed

subsection \<open>No component of size one\<close>

text \<open>
  C6. Every returned component has at least two distinct vertices, and each of its
  vertices lies on a cycle through another vertex of the component; so a module that
  is on a cycle with no other module is in no returned component. The graph of a single
  module that imports itself has no returned component.
\<close>

theorem no_singleton_component:
  "(\<forall>cs. strongly_connected_components depth graph = Inr cs \<longrightarrow>
      (\<forall>c \<in> set cs. 2 \<le> length c \<and> distinct c \<and>
         (\<forall>m \<in> set c. \<exists>w \<in> set c. w \<noteq> m \<and> (m, w) \<in> (edges graph)\<^sup>+ \<and> (w, m) \<in> (edges graph)\<^sup>+))) \<and>
   strongly_connected_components (Suc depth) [(m, [m])] = Inr []"
proof (intro conjI impI allI ballI)
  fix cs c
  assume a: "strongly_connected_components depth graph = Inr cs" "c \<in> set cs"
  show "2 \<le> length c" using scc_comps(2)[OF a(1)] a(2) by blast
  show "distinct c" using scc_comps(1)[OF a(1)] a(2) by (auto simp: distinct_concat_iff)
  fix m assume "m \<in> set c"
  from scc_member_cycle[OF a this]
  show "\<exists>w \<in> set c. w \<noteq> m \<and> (m, w) \<in> (edges graph)\<^sup>+ \<and> (w, m) \<in> (edges graph)\<^sup>+" .
next
  show "strongly_connected_components (Suc depth) [(m, [m])] = Inr []"
    by (simp add: strongly_connected_components_def init_state_def enter_def graph_get_def
        lower_def finish_def)
qed

text \<open>
  The statement at a graph with a self loop on a vertex of a cycle and a self loop alone.
\<close>

theorem no_singleton_component_witness:
  "strongly_connected_components 3 [(1::nat, [1, 2]), (2, [1]), (3, [3])] = Inr [[2, 1]] \<and>
   (\<exists>w \<in> set [2, 1::nat]. w \<noteq> 1 \<and> (1, w) \<in> (edges [(1::nat, [1, 2]), (2, [1]), (3, [3])])\<^sup>+)"
proof -
  have r: "strongly_connected_components 3 [(1::nat, [1, 2]), (2, [1]), (3, [3])] = Inr [[2, 1]]"
    by code_simp
  from no_singleton_component[of 3 "[(1::nat, [1, 2]), (2, [1]), (3, [3])]"] r
  have "\<forall>m \<in> set [2, 1::nat]. \<exists>w \<in> set [2, 1::nat]. w \<noteq> m \<and>
     (m, w) \<in> (edges [(1::nat, [1, 2]), (2, [1]), (3, [3])])\<^sup>+ \<and>
     (w, m) \<in> (edges [(1::nat, [1, 2]), (2, [1]), (3, [3])])\<^sup>+"
    by fastforce
  then show ?thesis using r by fastforce
qed

subsection \<open>External targets\<close>

text \<open>
  C7. A vertex that is not a key of the graph has no out-edges, is not among the vertices
  on which the outer loop starts a search, and is in no returned component.
\<close>

theorem external_target_inert:
  assumes "v \<notin> fst ` set graph"
  shows "graph_get graph v = [] \<and> v \<notin> set (dfs_roots depth graph) \<and>
     (\<forall>cs. strongly_connected_components depth graph = Inr cs \<longrightarrow> (\<forall>c \<in> set cs. v \<notin> set c))"
proof (intro conjI impI allI ballI)
  have "map_of graph v = None" using assms by (simp add: map_of_eq_None_iff)
  then show "graph_get graph v = []" by (simp add: graph_get_def)
  show "v \<notin> set (dfs_roots depth graph)"
    using assms dfs_roots_from_subset[of depth graph "map fst graph" init_state]
    by (auto simp: dfs_roots_def)
next
  fix cs c
  assume a: "strongly_connected_components depth graph = Inr cs" "c \<in> set cs"
  show "v \<notin> set c"
  proof
    assume "v \<in> set c"
    from scc_member_cycle[OF a this] obtain y where "(v, y) \<in> (edges graph)\<^sup>+" by blast
    then show False using assms edges_trancl_key by fastforce
  qed
qed

text \<open>
  The statement at a graph whose vertex 3 is a target only.
\<close>

theorem external_target_inert_witness:
  "(3::nat) \<notin> fst ` set [(1::nat, [2]), (2, [1, 3])] \<and>
   graph_get [(1::nat, [2]), (2, [1, 3])] 3 = [] \<and>
   dfs_roots 3 [(1::nat, [2]), (2, [1, 3])] = [1] \<and>
   strongly_connected_components 3 [(1::nat, [2]), (2, [1, 3])] = Inr [[2, 1]]"
proof -
  have h: "(3::nat) \<notin> fst ` set [(1::nat, [2]), (2, [1, 3])]" by simp
  have r: "strongly_connected_components 3 [(1::nat, [2]), (2, [1, 3])] = Inr [[2, 1]]"
    by code_simp
  have d: "dfs_roots 3 [(1::nat, [2]), (2, [1, 3])] = [1]"
    by code_simp
  from external_target_inert[OF h, of 3] h r d show ?thesis by simp
qed

subsection \<open>Relative imports above the top\<close>

text \<open>
  C8. For a level above 1 the package parts are those of the importing module without
  their last \<open>level - 1\<close> segments, and empty when there are no more than that; the result
  joins them with the module name, if any. \<open>resolve_from_import("top.mod", 2, "other")\<close> is
  \<open>other\<close>.
\<close>

theorem resolve_relative_clamped:
  assumes "1 < level"
  shows "pkg_parts current_fqn level
       = rev (drop (nat (level - 1)) (rev (butlast (str_split (CHR ''.'') current_fqn)))) \<and>
     (length (butlast (str_split (CHR ''.'') current_fqn)) \<le> nat (level - 1) \<longrightarrow>
        pkg_parts current_fqn level = []) \<and>
     resolve_from_import current_fqn level module
       = str_join ''.'' (pkg_parts current_fqn level @
           (case module of None \<Rightarrow> [] | Some m \<Rightarrow> if m \<noteq> [] then [m] else [])) \<and>
     resolve_from_import ''top.mod'' 2 (Some ''other'') = ''other''"
proof -
  let ?pp = "butlast (str_split (CHR ''.'') current_fqn)"
  have "nat (int (length ?pp) + (- level + 1)) = length ?pp - nat (level - 1)"
    using assms by linarith
  then have 1: "pkg_parts current_fqn level = take (length ?pp - nat (level - 1)) ?pp"
    using assms by (simp add: pkg_parts_def slice_to_def Let_def)
  have 2: "rev (drop (nat (level - 1)) (rev ?pp)) = take (length ?pp - nat (level - 1)) ?pp"
    by (simp add: rev_drop)
  have 3: "resolve_from_import current_fqn level module
       = str_join ''.'' (pkg_parts current_fqn level @
           (case module of None \<Rightarrow> [] | Some m \<Rightarrow> if m \<noteq> [] then [m] else []))"
    by (simp add: resolve_from_import_def Let_def split: option.splits)
  have 4: "resolve_from_import ''top.mod'' 2 (Some ''other'') = ''other''"
    by (simp add: resolve_from_import_def pkg_parts_def slice_to_def)
  show ?thesis using 1 2 3 4 by simp
qed

text \<open>
  The statement at level 3, with package parts left and with none left.
\<close>

theorem resolve_relative_clamped_witness:
  "(1::int) < 3 \<and> pkg_parts ''a.b.c.d'' 3 = [''a''] \<and> pkg_parts ''a.b'' 3 = [] \<and>
   resolve_from_import ''a.b.c.d'' 3 (Some ''other'') = ''a.other'' \<and>
   resolve_from_import ''a.b'' 3 None = ''''"
proof -
  have h: "(1::int) < 3" by simp
  from resolve_relative_clamped[OF h, of "''a.b.c.d''" "Some ''other''"]
       resolve_relative_clamped[OF h, of "''a.b''" None]
  show ?thesis by simp
qed

subsection \<open>Only Python files are recorded\<close>

text \<open>
  C9. The scan completes; the keys of the module map are the module names of the walked
  files whose name ends in \<open>.py\<close>, and every entry of the module map is the record of such
  a file. A file with another name contributes no key and no import.
\<close>

theorem scan_only_py_files:
  "\<exists>self'. scan fs self = Inr self' \<and>
     fst ` set (module_info self')
       = file_key (project_root self) ` {x \<in> set (walked_files (project_root self) fs). is_py x} \<and>
     set (module_info self')
       \<subseteq> (\<lambda>x. (file_key (project_root self) x, file_record (project_root self) x)) `
           {x \<in> set (walked_files (project_root self) fs). is_py x}"
  using set_foldl_dict_set[of "file_key (project_root self)" "file_record (project_root self)" "[]"
      "filter is_py (walked_files (project_root self) fs)"]
  by (simp add: scan_fold keys_foldl_dict_set)

text \<open>
  The statement at a project that holds a text file beside two Python files.
\<close>

theorem scan_only_py_files_witness:
  "\<exists>self'. scan (Some two_files) \<lparr>project_root = [''proj''], module_info = []\<rparr> = Inr self' \<and>
     fst ` set (module_info self') = {''bad'', ''good''}"
proof -
  have "file_key [''proj''] ` {x \<in> set (walked_files [''proj''] (Some two_files)). is_py x}
      = set (map (file_key [''proj'']) (filter is_py (walked_files [''proj''] (Some two_files))))"
    by simp
  also have "\<dots> = {''bad'', ''good''}"
    by (simp add: two_files_walked is_py_def endswith_def file_key_def fqn_of_def stem_def)
  finally show ?thesis
    using scan_only_py_files[of "Some two_files" "\<lparr>project_root = [''proj''], module_info = []\<rparr>"]
    by auto
qed

subsection \<open>From-imports that resolve to the empty string\<close>

text \<open>
  C10. When the module name is absent or empty and the package parts are empty, the result
  is the empty string. A module name without a dot has no package parts at level 1, and
  scanning a from-import of level 1 without a module name in such a module appends the
  empty string to its imports.
\<close>

theorem resolve_empty_target:
  "((module = None \<or> module = Some '''') \<and> pkg_parts current_fqn level = [] \<longrightarrow>
      resolve_from_import current_fqn level module = '''') \<and>
   (CHR ''.'' \<notin> set current_fqn \<longrightarrow>
      pkg_parts current_fqn 1 = [] \<and>
      scan_file (Parsed (Other [ImportFrom None names 1])) current_fqn
          (dict_set current_fqn \<lparr>path = p, imports = []\<rparr> d)
        = Inr (dict_set current_fqn \<lparr>path = p, imports = ['''']\<rparr> d))"
proof (intro conjI impI)
  assume "(module = None \<or> module = Some '''') \<and> pkg_parts current_fqn level = []"
  then show "resolve_from_import current_fqn level module = ''''"
    by (auto simp: resolve_from_import_def)
next
  assume a: "CHR ''.'' \<notin> set current_fqn"
  then show pp: "pkg_parts current_fqn 1 = []"
    by (simp add: pkg_parts_def str_split_no_sep)
  show "scan_file (Parsed (Other [ImportFrom None names 1])) current_fqn
          (dict_set current_fqn \<lparr>path = p, imports = []\<rparr> d)
        = Inr (dict_set current_fqn \<lparr>path = p, imports = ['''']\<rparr> d)"
    by (simp add: scan_file_dict_set source_imports_def ast_walk_def resolve_from_import_def pp)
qed

text \<open>
  The statement at the top-level module \<open>c\<close>.
\<close>

theorem resolve_empty_target_witness:
  "CHR ''.'' \<notin> set ''c'' \<and> resolve_from_import ''c'' 1 None = '''' \<and>
   scan_file (Parsed (Other [ImportFrom None [''x''] 1])) ''c''
       [(''c'', \<lparr>path = ''c.py'', imports = []\<rparr>)]
     = Inr [(''c'', \<lparr>path = ''c.py'', imports = ['''']\<rparr>)]"
proof -
  have h: "CHR ''.'' \<notin> set ''c''" by simp
  from resolve_empty_target[of None "''c''" 1 "[''x'']" "''c.py''" "[]"] h
  show ?thesis by simp
qed

end
